theory Spec2Isabelle
  imports Main
begin

section \<open>mediafiler: sorting media files into year-month folders\<close>

text \<open>
  A shallow embedding of \<^verbatim>\<open>mediafiler.py\<close>. Strings are \<^typ>\<open>string\<close>, a path built
  by \<^verbatim>\<open>pathlib.Path(a, b, c)\<close> is the list of its components, exceptions are values of
  \<open>error\<close>, and the destination directory is a map from paths to files.
\<close>

subsection \<open>Files, paths and errors\<close>

datatype error = IOError | ValueError

type_synonym path = "string list"

text \<open>
  What the program can observe of a file: its bytes, whether \<^verbatim>\<open>open\<close> succeeds on it,
  what \<^verbatim>\<open>pyexiv2.Image(..).read_exif()\<close> gives for it (a dictionary as an association
  list, or an exception), and the year and month of
  \<^verbatim>\<open>datetime.date.fromtimestamp(os.stat(..).st_mtime)\<close>.
  \<^verbatim>\<open>os.stat\<close> on a file that the walk has just listed is taken to succeed.
\<close>

record fdata =
  content :: string
  readable :: bool
  exif :: "error + (string \<times> string) list"
  mtime :: "nat \<times> nat"

subsection \<open>String operations of the Python library\<close>

definition lower_char :: "char \<Rightarrow> char" where
  "lower_char c =
     (let n = (of_char c :: nat) in if 65 \<le> n \<and> n \<le> 90 then char_of (n + 32) else c)"

text \<open>\<^verbatim>\<open>str.lower\<close>, on ASCII.\<close>

definition lower :: "string \<Rightarrow> string" where
  "lower s = map lower_char s"

definition endswith1 :: "string \<Rightarrow> string \<Rightarrow> bool" where
  "endswith1 s suf = (length suf \<le> length s \<and> drop (length s - length suf) s = suf)"

text \<open>\<^verbatim>\<open>str.endswith\<close> with a tuple of suffixes.\<close>

definition endswith :: "string \<Rightarrow> string list \<Rightarrow> bool" where
  "endswith s sufs = list_ex (endswith1 s) sufs"

definition is_digit :: "char \<Rightarrow> bool" where
  "is_digit c = (c \<in> set ''0123456789'')"

text \<open>\<^verbatim>\<open>s.split(':', n)\<close>: at most \<open>n\<close> splits, so at most \<open>n + 1\<close> parts.\<close>

fun split_colon :: "nat \<Rightarrow> string \<Rightarrow> string list" where
  "split_colon 0 s = [s]"
| "split_colon (Suc n) s =
     (if CHR '':'' \<in> set s
      then takeWhile (\<lambda>c. c \<noteq> CHR '':'') s
             # split_colon n (tl (dropWhile (\<lambda>c. c \<noteq> CHR '':'') s))
      else [s])"

text \<open>Decimal printing of a natural number, and \<^verbatim>\<open>"{:0wd}".format(n)\<close>.\<close>

definition digit_char :: "nat \<Rightarrow> char" where
  "digit_char d = ''0123456789'' ! d"

fun str_nat :: "nat \<Rightarrow> string" where
  "str_nat n = (if n < 10 then [digit_char n] else str_nat (n div 10) @ [digit_char (n mod 10)])"

declare str_nat.simps [simp del]

definition zero_pad :: "nat \<Rightarrow> nat \<Rightarrow> string" where
  "zero_pad w n = replicate (w - length (str_nat n)) (CHR ''0'') @ str_nat n"

subsection \<open>Constants\<close>

definition IMAGE_EXT :: "string list" where
  "IMAGE_EXT = [''.jpg'', ''.jpeg'', ''.png'', ''.gif'']"

definition VIDEO_EXT :: "string list" where
  "VIDEO_EXT = [''.mts'', ''.mp4'', ''.avi'']"

text \<open>
  \<^verbatim>\<open>datere = re.compile(r"([0-9]{8})_[0-9]{6}\.")\<close>. The pattern has a fixed length of 16
  characters; \<open>datere_at\<close> says that it matches at the start of \<open>s\<close>, and
  \<open>datere_search\<close> is \<^verbatim>\<open>re.search(datere, s)\<close> followed by \<^verbatim>\<open>group(1)\<close>: the eight digits of
  the leftmost match.
\<close>

definition datere_at :: "string \<Rightarrow> bool" where
  "datere_at s =
     (16 \<le> length s \<and> list_all is_digit (take 8 s) \<and> s ! 8 = CHR ''_'' \<and>
      list_all is_digit (take 6 (drop 9 s)) \<and> s ! 15 = CHR ''.'')"

fun datere_search :: "string \<Rightarrow> string option" where
  "datere_search [] = None"
| "datere_search (c # cs) =
     (if datere_at (c # cs) then Some (take 8 (c # cs)) else datere_search cs)"

subsection \<open>Random strings\<close>

text \<open>
  The generator is a fixed sequence \<open>rnd\<close> of numbers and a position in it; each
  \<^verbatim>\<open>random.choice(letters)\<close> reads one number and takes the letter at that index modulo the
  number of letters.
\<close>

definition letters :: string where
  "letters = ''abcdefghijklmnopqrstuvwxyz0123456789''"

definition rand_str :: "(nat \<Rightarrow> nat) \<Rightarrow> nat \<Rightarrow> nat \<Rightarrow> string \<times> nat" where
  "rand_str rnd pos len =
     (map (\<lambda>i. letters ! (rnd (pos + i) mod length letters)) [0..<len], pos + len)"

subsection \<open>Digests\<close>

text \<open>
  \<^verbatim>\<open>hashlib.md5\<close> is a parameter \<open>md5\<close> from bytes to digests. Reading the file in
  chunks of 4096 bytes feeds the hash the whole content; opening an unreadable file raises.
\<close>

definition get_md5sum :: "(string \<Rightarrow> string) \<Rightarrow> fdata \<Rightarrow> error + string" where
  "get_md5sum md5 f = (if readable f then Inr (md5 (content f)) else Inl IOError)"

definition compare_md5sums :: "(string \<Rightarrow> string) \<Rightarrow> fdata \<Rightarrow> fdata \<Rightarrow> error + bool" where
  "compare_md5sums md5 fa fb =
     (case get_md5sum md5 fa of
        Inl e \<Rightarrow> Inl e
      | Inr md5sum1 \<Rightarrow>
          (case get_md5sum md5 fb of
             Inl e \<Rightarrow> Inl e
           | Inr md5sum2 \<Rightarrow> Inr (md5sum1 = md5sum2)))"

subsection \<open>Inferring the destination folder\<close>

definition read_exif :: "fdata \<Rightarrow> error + (string \<times> string) list" where
  "read_exif f = (if readable f then exif f else Inl IOError)"

text \<open>\<^verbatim>\<open>y, m, _ = v.split(':', 2)\<close> followed by \<^verbatim>\<open>"{}-{}".format(y, m)\<close>.\<close>

definition exif_folder :: "string \<Rightarrow> error + string" where
  "exif_folder v =
     (case split_colon 2 v of
        [y, m, _] \<Rightarrow> Inr (y @ ''-'' @ m)
      | _ \<Rightarrow> Inl ValueError)"

text \<open>\<^verbatim>\<open>"{}-{}".format(dt[:4], dt[4:6])\<close>.\<close>

definition name_folder :: "string \<Rightarrow> string" where
  "name_folder dt = take 4 dt @ ''-'' @ take 2 (drop 4 dt)"

definition infer_image_dest_folder :: "string \<Rightarrow> string \<Rightarrow> fdata \<Rightarrow> error + string" where
  "infer_image_dest_folder dir fname f =
     (case read_exif f of
        Inl e \<Rightarrow> Inl e
      | Inr exif_data \<Rightarrow>
          if exif_data \<noteq> [] \<and> map_of exif_data ''Exif.Image.DateTime'' \<noteq> None then
            exif_folder (the (map_of exif_data ''Exif.Image.DateTime''))
          else if exif_data \<noteq> [] \<and> map_of exif_data ''Exif.Photo.DateTimeOriginal'' \<noteq> None then
            exif_folder (the (map_of exif_data ''Exif.Photo.DateTimeOriginal''))
          else
            (case datere_search fname of
               Some dt \<Rightarrow> Inr (name_folder dt)
             | None \<Rightarrow> Inr ''unknown''))"

definition infer_video_dest_folder :: "string \<Rightarrow> string \<Rightarrow> fdata \<Rightarrow> error + string" where
  "infer_video_dest_folder dir fname f =
     (case datere_search fname of
        Some dt \<Rightarrow> Inr (name_folder dt)
      | None \<Rightarrow> Inr (zero_pad 4 (fst (mtime f)) @ ''-'' @ zero_pad 2 (snd (mtime f))))"

subsection \<open>Walking the source directory\<close>

text \<open>
  \<^verbatim>\<open>os.walk(directory)\<close> is given as the list it produces: every directory with the
  files in it, in the order of the traversal, each file with what can be observed of it.
  The destination is taken to lie outside the source tree: the program does not change
  the source, so reading a file at the moment it is listed and reading it later give the
  same.
\<close>

type_synonym tree = "(string \<times> (string \<times> fdata) list) list"

text \<open>What the generator yields: \<^verbatim>\<open>root, file, dstdir\<close>, and the file found at that path.\<close>

type_synonym yielded = "string \<times> string \<times> fdata \<times> string"

definition ext_list :: "string \<Rightarrow> string list" where
  "ext_list file_type = (if file_type = ''image'' then IMAGE_EXT else VIDEO_EXT)"

definition infer_dest_folder :: "string \<Rightarrow> string \<Rightarrow> string \<Rightarrow> fdata \<Rightarrow> error + string" where
  "infer_dest_folder file_type root fname f =
     (if file_type = ''image'' then infer_image_dest_folder root fname f
      else infer_video_dest_folder root fname f)"

text \<open>
  The inner loop of \<open>walk_src_dir\<close>. An exception of the inference is caught and logged,
  and nothing is yielded for that file.
\<close>

fun walk_files :: "string \<Rightarrow> string \<Rightarrow> (string \<times> fdata) list \<Rightarrow> yielded list" where
  "walk_files file_type root [] = []"
| "walk_files file_type root ((fname, f) # files) =
     (if endswith (lower fname) (ext_list file_type) then
        (case infer_dest_folder file_type root fname f of
           Inr dstdir \<Rightarrow> (root, fname, f, dstdir) # walk_files file_type root files
         | Inl e \<Rightarrow> walk_files file_type root files)
      else walk_files file_type root files)"

fun walk_src_dir :: "tree \<Rightarrow> string \<Rightarrow> yielded list" where
  "walk_src_dir [] file_type = []"
| "walk_src_dir ((root, files) # rest) file_type =
     walk_files file_type root files @ walk_src_dir rest file_type"

text \<open>The files that the walk looks at: those whose extension is in the list.\<close>

fun candidates :: "tree \<Rightarrow> string \<Rightarrow> (string \<times> string \<times> fdata) list" where
  "candidates [] file_type = []"
| "candidates ((root, files) # rest) file_type =
     map (\<lambda>(fname, f). (root, fname, f))
       (filter (\<lambda>(fname, f). endswith (lower fname) (ext_list file_type)) files)
     @ candidates rest file_type"

text \<open>Whether the inference of the folder returns for a candidate, and the name of a candidate.\<close>

definition inferable :: "string \<Rightarrow> string \<times> string \<times> fdata \<Rightarrow> bool" where
  "inferable file_type c =
     (case c of (root, fname, f) \<Rightarrow>
        (case infer_dest_folder file_type root fname f of Inr d \<Rightarrow> True | Inl e \<Rightarrow> False))"

definition candidate_key :: "string \<times> string \<times> fdata \<Rightarrow> string \<times> string" where
  "candidate_key c = (case c of (root, fname, f) \<Rightarrow> (root, fname))"

subsection \<open>The main loop\<close>

text \<open>
  \<^verbatim>\<open>shutil.copy2(src, dst)\<close>: the destination gets the bytes and the metadata of the source,
  in place of what was at that path; a source that cannot be opened raises and nothing is
  written. Writing itself is taken to succeed.
\<close>

definition copy2 :: "fdata \<Rightarrow> path \<Rightarrow> (path \<rightharpoonup> fdata) \<Rightarrow> error + (path \<rightharpoonup> fdata)" where
  "copy2 f p fs = (if readable f then Inr (fs(p \<mapsto> f)) else Inl IOError)"

text \<open>
  The branch that the loop body takes for one yielded file. The program does not build
  such a value; it is recorded here so that the branches can be counted.
\<close>

datatype decision = Copied path | CopiedWithSuffix path string | SkippedIdentical

record state =
  files :: "path \<rightharpoonup> fdata"
  createdSubdirs :: "string list"
  nfiles :: nat
  cfiles :: nat
  rpos :: nat
  decisions :: "((string \<times> string) \<times> decision) list"

text \<open>
  One iteration of the \<^verbatim>\<open>for\<close> loop of \<open>main\<close>. It returns the state it reaches and the
  exception that left it, if any: the counters keep what they had when it was raised.
  \<^verbatim>\<open>mkdir(parents=True, exist_ok=True)\<close> is taken to succeed; it changes no file, and the
  folders it was called for are kept in \<open>createdSubdirs\<close>.
\<close>

definition loop_body ::
  "(string \<Rightarrow> string) \<Rightarrow> (nat \<Rightarrow> nat) \<Rightarrow> string \<Rightarrow> state \<Rightarrow> yielded \<Rightarrow> state \<times> error option" where
  "loop_body md5 rnd dst st y =
     (case y of (srcdir, fname, f, dstpart) \<Rightarrow>
        let st1 = st\<lparr>nfiles := nfiles st + 1\<rparr>;
            st2 = (if dstpart \<notin> set (createdSubdirs st1)
                   then st1\<lparr>createdSubdirs := dstpart # createdSubdirs st1\<rparr> else st1);
            dstpath = [dst, dstpart, fname]
        in (case files st2 dstpath of
              Some g \<Rightarrow>
                (case compare_md5sums md5 f g of
                   Inl e \<Rightarrow> (st2, Some e)
                 | Inr same \<Rightarrow>
                     if \<not> same then
                       (let (prefix, pos) = rand_str rnd (rpos st2) 5;
                            st3 = st2\<lparr>rpos := pos\<rparr>;
                            newdstpath = [dst, dstpart, prefix @ ''-'' @ fname]
                        in (case copy2 f newdstpath (files st3) of
                              Inl e \<Rightarrow> (st3, Some e)
                            | Inr fs \<Rightarrow>
                                (st3\<lparr>files := fs, decisions := decisions st3 @
                                   [((srcdir, fname), CopiedWithSuffix newdstpath prefix)]\<rparr>,
                                 None)))
                     else
                       (st2\<lparr>decisions := decisions st2 @ [((srcdir, fname), SkippedIdentical)]\<rparr>,
                        None))
            | None \<Rightarrow>
                (case copy2 f dstpath (files st2) of
                   Inl e \<Rightarrow> (st2, Some e)
                 | Inr fs \<Rightarrow>
                     (st2\<lparr>files := fs, cfiles := cfiles st2 + 1,
                          decisions := decisions st2 @ [((srcdir, fname), Copied dstpath)]\<rparr>,
                      None))))"

text \<open>
  The loop over what the walk yields. An exception raised in the body leaves the loop: it
  is caught by the \<^verbatim>\<open>except\<close> around the whole loop, and the remaining files are not
  looked at.
\<close>

fun main_loop ::
  "(string \<Rightarrow> string) \<Rightarrow> (nat \<Rightarrow> nat) \<Rightarrow> string \<Rightarrow> state \<Rightarrow> yielded list \<Rightarrow> state \<times> error option" where
  "main_loop md5 rnd dst st [] = (st, None)"
| "main_loop md5 rnd dst st (y # ys) =
     (case loop_body md5 rnd dst st y of
        (st', Some e) \<Rightarrow> (st', Some e)
      | (st', None) \<Rightarrow> main_loop md5 rnd dst st' ys)"

record args =
  src :: string
  dst :: string
  type :: string

text \<open>
  \<open>main\<close>, from the parsed arguments, the walk of \<^verbatim>\<open>args.src\<close> and the files under
  \<^verbatim>\<open>args.dst\<close>. It returns the final state and the exception logged by the handler.
\<close>

definition main ::
  "(string \<Rightarrow> string) \<Rightarrow> (nat \<Rightarrow> nat) \<Rightarrow> args \<Rightarrow> tree \<Rightarrow> (path \<rightharpoonup> fdata) \<Rightarrow> state \<times> error option" where
  "main md5 rnd a walk fs =
     main_loop md5 rnd (dst a)
       \<lparr>files = fs, createdSubdirs = [], nfiles = 0, cfiles = 0, rpos = 0, decisions = []\<rparr>
       (walk_src_dir walk (type a))"

text \<open>The two lines logged at the end.\<close>

definition summary :: "state \<Rightarrow> string list" where
  "summary st =
     [''=== Files found:  '' @ str_nat (nfiles st), ''=== Files copied: '' @ str_nat (cfiles st)]"

subsection \<open>Notions used in the statements\<close>

text \<open>The parts of what the walk yields: the destination path, the source file, the name.\<close>

definition dstpath_of :: "string \<Rightarrow> yielded \<Rightarrow> path" where
  "dstpath_of d y = (case y of (srcdir, fname, f, dstpart) \<Rightarrow> [d, dstpart, fname])"

definition source_of :: "yielded \<Rightarrow> fdata" where
  "source_of y = (case y of (srcdir, fname, f, dstpart) \<Rightarrow> f)"

definition key_of :: "yielded \<Rightarrow> string \<times> string" where
  "key_of y = (case y of (srcdir, fname, f, dstpart) \<Rightarrow> (srcdir, fname))"



text \<open>The state on entry of the branches: the file is counted, the folder is noted.\<close>

definition entered :: "state \<Rightarrow> string \<Rightarrow> state" where
  "entered st dstpart =
     (if dstpart \<notin> set (createdSubdirs st)
      then st\<lparr>nfiles := nfiles st + 1, createdSubdirs := dstpart # createdSubdirs st\<rparr>
      else st\<lparr>nfiles := nfiles st + 1\<rparr>)"





subsection \<open>Numbers in strings and the bucket name\<close>

text \<open>\<^verbatim>\<open>int(s)\<close> on a string of decimal digits.\<close>

definition digit_val :: "char \<Rightarrow> nat" where
  "digit_val c = of_char c - 48"

definition digits_nat :: "string \<Rightarrow> nat" where
  "digits_nat s = foldl (\<lambda>a c. 10 * a + digit_val c) 0 s"

text \<open>
  The bucket name in the words of the specification: \<^verbatim>\<open>"{year:04d}-{month:02d}"\<close> for a
  resolved year and month, the string \<open>unknown\<close> otherwise. The program has no such
  function; its folder names are compared with this one.
\<close>

definition bucketFor :: "(nat \<times> nat) option \<Rightarrow> string" where
  "bucketFor r =
     (case r of Some (year, month) \<Rightarrow> zero_pad 4 year @ ''-'' @ zero_pad 2 month
      | None \<Rightarrow> ''unknown'')"

text \<open>
  The timestamp that \<open>infer_image_dest_folder\<close> reads from the EXIF data: the value of
  the first key if it is there, of the second key otherwise.
\<close>

definition exif_timestamp :: "(string \<times> string) list \<Rightarrow> string option" where
  "exif_timestamp exif_data =
     (case map_of exif_data ''Exif.Image.DateTime'' of
        Some v \<Rightarrow> Some v
      | None \<Rightarrow> map_of exif_data ''Exif.Photo.DateTimeOriginal'')"

subsection \<open>Example inputs\<close>

text \<open>A readable file with the given bytes, no EXIF data, last modified in March 2021.\<close>

definition plain :: "string \<Rightarrow> fdata" where
  "plain c = \<lparr>content = c, readable = True, exif = Inr [], mtime = (2021, 3)\<rparr>"


definition with_exif :: "string \<Rightarrow> string \<Rightarrow> fdata" where
  "with_exif c v =
     \<lparr>content = c, readable = True, exif = Inr [(''Exif.Image.DateTime'', v)], mtime = (2021, 3)\<rparr>"



definition image_args :: args where
  "image_args = \<lparr>src = ''s'', dst = ''d'', type = ''image''\<rparr>"





definition photos :: tree where
  "photos = [(''a'', [(''20230715_142233.jpg'', with_exif ''x'' ''2023-07-15''),
                      (''IMG_2.jpg'', plain ''y'')])]"

definition twins :: tree where
  "twins = [(''a'', [(''x.jpg'', plain ''x'')]), (''b'', [(''x.jpg'', plain ''y'')])]"

definition album :: tree where
  "album = [(''a'', [(''20230101_100000.jpg'', plain ''x'')]),
            (''b'', [(''IMG_0099.png'', with_exif ''y'' ''2022:12:24 10:11:12'')])]"

definition single :: tree where
  "single = [(''a'', [(''x.jpg'', plain ''new'')])]"

definition taken :: "path \<rightharpoonup> fdata" where
  "taken = [[''d'', ''unknown'', ''x.jpg''] \<mapsto> plain ''old'']"

definition crowded :: "path \<rightharpoonup> fdata" where
  "crowded = [[''d'', ''unknown'', ''x.jpg''] \<mapsto> plain ''old'',
              [''d'', ''unknown'', ''aaaaa-x.jpg''] \<mapsto> plain ''keep'']"

section \<open>Properties\<close>

subsection \<open>Digits and folder names\<close>





lemma datere_at_take: "datere_at s \<Longrightarrow> length (take 8 s) = 8 \<and> list_all is_digit (take 8 s)"
  unfolding datere_at_def by simp

lemma datere_search_Some:
  "datere_search s = Some dt \<Longrightarrow> length dt = 8 \<and> list_all is_digit dt"
proof (induction s)
  case Nil
  then show ?case by simp
next
  case (Cons c cs)
  show ?case
  proof (cases "datere_at (c # cs)")
    case True
    with Cons.prems have "dt = take 8 (c # cs)" by (simp del: take_Cons_numeral)
    with datere_at_take [OF True] show ?thesis by (simp del: take_Cons_numeral)
  next
    case False
    with Cons show ?thesis by (simp del: take_Cons_numeral)
  qed
qed

lemma name_folder_shape:
  assumes "length dt = 8" "list_all is_digit dt"
  shows "length (take 4 dt) = 4" "length (take 2 (drop 4 dt)) = 2"
   "list_all is_digit (take 4 dt)" "list_all is_digit (take 2 (drop 4 dt))"
proof -
  show "length (take 4 dt) = 4" "length (take 2 (drop 4 dt)) = 2" using assms(1) by simp_all
  have "set (take 4 dt) \<subseteq> set dt" by (rule set_take_subset)
  then show "list_all is_digit (take 4 dt)" using assms(2) unfolding list_all_iff by blast
  have "set (take 2 (drop 4 dt)) \<subseteq> set dt"
    using set_take_subset set_drop_subset by fast
  then show "list_all is_digit (take 2 (drop 4 dt))" using assms(2) unfolding list_all_iff by blast
qed


subsection \<open>One iteration of the loop\<close>





lemma suffixed_name_differs: "prefix @ ''-'' @ fname \<noteq> fname"
proof
  assume "prefix @ ''-'' @ fname = fname"
  then have "length (prefix @ ''-'' @ fname) = length fname" by (rule arg_cong)
  then show False by simp
qed

lemma entered_simps:
  "files (entered st p) = files st" "cfiles (entered st p) = cfiles st"
  "nfiles (entered st p) = nfiles st + 1" "decisions (entered st p) = decisions st"
  "rpos (entered st p) = rpos st"
  by (simp_all add: entered_def)

lemma loop_body_absent:
  assumes "files st [d, dstpart, fname] = None"
  shows "loop_body md5 rnd d st (srcdir, fname, f, dstpart) =
     (if readable f
      then ((entered st dstpart)\<lparr>files := (files st)([d, dstpart, fname] \<mapsto> f),
              cfiles := cfiles st + 1,
              decisions := decisions st @ [((srcdir, fname), Copied [d, dstpart, fname])]\<rparr>, None)
      else (entered st dstpart, Some IOError))"
  using assms unfolding loop_body_def entered_def copy2_def Let_def by simp

lemma loop_body_present:
  assumes "files st [d, dstpart, fname] = Some g"
  shows "loop_body md5 rnd d st (srcdir, fname, f, dstpart) =
     (case compare_md5sums md5 f g of
        Inl e \<Rightarrow> (entered st dstpart, Some e)
      | Inr same \<Rightarrow>
          if same
          then ((entered st dstpart)\<lparr>decisions := decisions st @ [((srcdir, fname), SkippedIdentical)]\<rparr>,
                None)
          else if readable f
          then ((entered st dstpart)\<lparr>rpos := rpos st + 5,
                  files := (files st)([d, dstpart, fst (rand_str rnd (rpos st) 5) @ ''-'' @ fname] \<mapsto> f),
                  decisions := decisions st @
                    [((srcdir, fname),
                      CopiedWithSuffix [d, dstpart, fst (rand_str rnd (rpos st) 5) @ ''-'' @ fname]
                        (fst (rand_str rnd (rpos st) 5)))]\<rparr>, None)
          else ((entered st dstpart)\<lparr>rpos := rpos st + 5\<rparr>, Some IOError))"
  using assms unfolding loop_body_def entered_def copy2_def Let_def
  by (simp add: rand_str_def split: sum.split)

text \<open>The outcomes of one iteration, as a case distinction.\<close>

lemma loop_body_cases [consumes 1, case_names copied skipped suffixed failed]:
  assumes r: "loop_body md5 rnd d st y = (st', e)"
  obtains
    (copied) "files st (dstpath_of d y) = None" "readable (source_of y)" "e = None"
      "files st' = (files st)(dstpath_of d y \<mapsto> source_of y)"
      "cfiles st' = cfiles st + 1" "nfiles st' = nfiles st + 1"
      "decisions st' = decisions st @ [(key_of y, Copied (dstpath_of d y))]"
  | (skipped) g where "files st (dstpath_of d y) = Some g" "readable (source_of y)" "readable g"
      "md5 (content (source_of y)) = md5 (content g)" "e = None"
      "files st' = files st" "cfiles st' = cfiles st" "nfiles st' = nfiles st + 1"
      "decisions st' = decisions st @ [(key_of y, SkippedIdentical)]"
  | (suffixed) g p s where "files st (dstpath_of d y) = Some g" "readable (source_of y)" "readable g"
      "md5 (content (source_of y)) \<noteq> md5 (content g)" "e = None"
      "p \<noteq> dstpath_of d y"
      "files st' = (files st)(p \<mapsto> source_of y)" "cfiles st' = cfiles st"
      "nfiles st' = nfiles st + 1"
      "decisions st' = decisions st @ [(key_of y, CopiedWithSuffix p s)]"
  | (failed) "\<not> readable (source_of y) \<or>
        (\<exists>g. files st (dstpath_of d y) = Some g \<and> \<not> readable g)" "e = Some IOError"
      "files st' = files st" "cfiles st' = cfiles st" "nfiles st' = nfiles st + 1"
      "decisions st' = decisions st"
proof -
  obtain srcdir fname f dstpart where y: "y = (srcdir, fname, f, dstpart)" by (cases y)
  have dp: "dstpath_of d y = [d, dstpart, fname]" and so: "source_of y = f"
    and ko: "key_of y = (srcdir, fname)"
    by (simp_all add: y dstpath_of_def source_of_def key_of_def)
  show thesis
  proof (cases "files st [d, dstpart, fname]")
    case None
    note b = loop_body_absent [OF None, of md5 rnd srcdir f]
    show thesis
    proof (cases "readable f")
      case True
      with r b have "st' = (entered st dstpart)\<lparr>files := (files st)([d, dstpart, fname] \<mapsto> f),
              cfiles := cfiles st + 1,
              decisions := decisions st @ [((srcdir, fname), Copied [d, dstpart, fname])]\<rparr>"
        and "e = None" unfolding y by simp_all
      then show thesis using None True
        by (intro copied) (simp_all add: dp so ko entered_simps)
    next
      case False
      with r b have "st' = entered st dstpart" and "e = Some IOError" unfolding y by simp_all
      then show thesis using False
        by (intro failed) (simp_all add: dp so ko entered_simps)
    qed
  next
    case (Some g)
    note b = loop_body_present [OF Some, of md5 rnd srcdir f]
    show thesis
    proof (cases "readable f \<and> readable g")
      case False
      then have "compare_md5sums md5 f g = Inl IOError"
        unfolding compare_md5sums_def get_md5sum_def by auto
      with r b have "st' = entered st dstpart" and "e = Some IOError" unfolding y by simp_all
      then show thesis using False Some
        by (intro failed) (auto simp add: dp so ko entered_simps)
    next
      case True
      then have c: "compare_md5sums md5 f g = Inr (md5 (content f) = md5 (content g))"
        unfolding compare_md5sums_def get_md5sum_def by simp
      show thesis
      proof (cases "md5 (content f) = md5 (content g)")
        case same: True
        with r b c have "st' = (entered st dstpart)\<lparr>decisions := decisions st @ [((srcdir, fname), SkippedIdentical)]\<rparr>"
          and "e = None" unfolding y by simp_all
        then show thesis using same True Some
          by (intro skipped [of g]) (simp_all add: dp so ko entered_simps)
      next
        case differ: False
        let ?s = "fst (rand_str rnd (rpos st) 5)"
        let ?p = "[d, dstpart, ?s @ ''-'' @ fname]"
        from r b c differ True
        have "st' = (entered st dstpart)\<lparr>rpos := rpos st + 5,
                  files := (files st)(?p \<mapsto> f),
                  decisions := decisions st @ [((srcdir, fname), CopiedWithSuffix ?p ?s)]\<rparr>"
          and "e = None" unfolding y by simp_all
        then show thesis using differ True Some
          by (intro suffixed [of g ?p ?s]) (simp_all add: dp so ko entered_simps suffixed_name_differs)
      qed
    qed
  qed
qed

subsection \<open>The loop\<close>


lemma main_loop_Cons_None:
  "loop_body md5 rnd d st y = (st1, None) \<Longrightarrow>
   main_loop md5 rnd d st (y # ys) = main_loop md5 rnd d st1 ys"
  by simp

lemma main_loop_Cons_Some:
  "loop_body md5 rnd d st y = (st1, Some e) \<Longrightarrow>
   main_loop md5 rnd d st (y # ys) = (st1, Some e)"
  by simp


lemma loop_body_decisions:
  assumes "loop_body md5 rnd d st y = (st', e)"
  shows "nfiles st' = nfiles st + 1 \<and>
     (case e of None \<Rightarrow> \<exists>dec. decisions st' = decisions st @ [(key_of y, dec)]
      | Some x \<Rightarrow> decisions st' = decisions st)"
  using assms by (cases rule: loop_body_cases) simp_all

lemma main_loop_decisions:
  assumes "main_loop md5 rnd d st ys = (st', e)"
  shows "\<exists>ds. decisions st' = decisions st @ ds \<and>
     map fst ds = take (length ds) (map key_of ys) \<and> length ds \<le> length ys \<and>
     (e = None \<longrightarrow> length ds = length ys \<and> nfiles st' = nfiles st + length ys) \<and>
     (e \<noteq> None \<longrightarrow> nfiles st' = nfiles st + length ds + 1)"
  using assms
proof (induction ys arbitrary: st)
  case Nil
  then show ?case by simp
next
  case (Cons y ys)
  obtain st1 e1 where b: "loop_body md5 rnd d st y = (st1, e1)"
    by (cases "loop_body md5 rnd d st y")
  note l = loop_body_decisions [OF b]
  show ?case
  proof (cases e1)
    case (Some x)
    with b Cons.prems have "st' = st1" "e = Some x" by simp_all
    with l Some show ?thesis by simp
  next
    case None
    with l obtain dec where d1: "decisions st1 = decisions st @ [(key_of y, dec)]"
      and n1: "nfiles st1 = nfiles st + 1" by auto
    from b None Cons.prems have "main_loop md5 rnd d st1 ys = (st', e)" by simp
    from Cons.IH [OF this] obtain ds where
      ds: "decisions st' = decisions st1 @ ds" "map fst ds = take (length ds) (map key_of ys)"
        "length ds \<le> length ys"
        "e = None \<longrightarrow> length ds = length ys \<and> nfiles st' = nfiles st1 + length ys"
        "e \<noteq> None \<longrightarrow> nfiles st' = nfiles st1 + length ds + 1"
      by blast
    show ?thesis
      by (rule exI [of _ "(key_of y, dec) # ds"]) (use ds d1 n1 in auto)
  qed
qed

lemma loop_body_keeps:
  assumes "loop_body md5 rnd d st y = (st', e)" and "files st p = Some g"
    and "\<forall>c s. (c, CopiedWithSuffix p s) \<notin> set (decisions st')"
  shows "files st' p = Some g"
  using assms(1)
proof (cases rule: loop_body_cases)
  case copied
  with assms(2) show ?thesis by auto
next
  case (skipped g')
  with assms(2) show ?thesis by simp
next
  case (suffixed g' q s)
  from assms(3) have "(key_of y, CopiedWithSuffix p s) \<notin> set (decisions st')" by blast
  with suffixed have "q \<noteq> p" by auto
  with suffixed assms(2) show ?thesis by simp
next
  case failed
  with assms(2) show ?thesis by simp
qed

lemma main_loop_decisions_mono:
  "main_loop md5 rnd d st ys = (st', e) \<Longrightarrow> set (decisions st) \<subseteq> set (decisions st')"
  using main_loop_decisions [of md5 rnd d st ys st' e] by auto

lemma main_loop_keeps:
  assumes "main_loop md5 rnd d st ys = (st', e)" and "files st p = Some g"
    and "\<forall>c s. (c, CopiedWithSuffix p s) \<notin> set (decisions st')"
  shows "files st' p = Some g"
  using assms
proof (induction ys arbitrary: st)
  case Nil
  then show ?case by simp
next
  case (Cons y ys)
  obtain st1 e1 where b: "loop_body md5 rnd d st y = (st1, e1)"
    by (cases "loop_body md5 rnd d st y")
  show ?case
  proof (cases e1)
    case (Some x)
    with b Cons.prems(1) have "st' = st1" by simp
    with loop_body_keeps [OF b Cons.prems(2)] Cons.prems(3) show ?thesis by simp
  next
    case None
    with b Cons.prems(1) have m: "main_loop md5 rnd d st1 ys = (st', e)" by simp
    from main_loop_decisions_mono [OF m] Cons.prems(3)
    have "\<forall>c s. (c, CopiedWithSuffix p s) \<notin> set (decisions st1)" by blast
    from loop_body_keeps [OF b Cons.prems(2) this] have "files st1 p = Some g" .
    from Cons.IH [OF m this Cons.prems(3)] show ?thesis .
  qed
qed











subsection \<open>Values of the type flag\<close>

lemma ext_list_not_image: "file_type \<noteq> ''image'' \<Longrightarrow> ext_list file_type = VIDEO_EXT"
  unfolding ext_list_def by (simp only: if_False)

lemma infer_not_image:
  "file_type \<noteq> ''image'' \<Longrightarrow> infer_dest_folder file_type = infer_video_dest_folder"
  unfolding infer_dest_folder_def fun_eq_iff by (simp only: if_False) simp

lemma walk_files_not_image:
  assumes "file_type \<noteq> ''image''"
  shows "walk_files file_type root fl = walk_files ''video'' root fl"
proof (induction fl)
  case Nil
  show ?case by (simp only: walk_files.simps)
next
  case (Cons a fl)
  obtain fname f where a: "a = (fname, f)" by (cases a)
  have v: "''video'' \<noteq> ''image''" by simp
  show ?case
    unfolding a
    by (simp only: walk_files.simps ext_list_not_image [OF assms] ext_list_not_image [OF v]
         infer_not_image [OF assms] infer_not_image [OF v] Cons.IH)
qed

lemma walk_src_dir_not_image:
  assumes "file_type \<noteq> ''image''"
  shows "walk_src_dir walk file_type = walk_src_dir walk ''video''"
proof (induction walk)
  case Nil
  show ?case by (simp only: walk_src_dir.simps)
next
  case (Cons a walk)
  obtain root fl where a: "a = (root, fl)" by (cases a)
  show ?case
    unfolding a by (simp only: walk_src_dir.simps walk_files_not_image [OF assms] Cons.IH)
qed

subsection \<open>Digits read and printed\<close>

lemma digit_val_digit: "is_digit c \<Longrightarrow> digit_val c < 10 \<and> digit_char (digit_val c) = c"
  unfolding is_digit_def digit_val_def digit_char_def by auto

lemma digits_nat_snoc: "digits_nat (s @ [c]) = 10 * digits_nat s + digit_val c"
  by (simp add: digits_nat_def)

lemma str_nat_small: "n < 10 \<Longrightarrow> str_nat n = [digit_char n]"
  by (subst str_nat.simps) simp

lemma str_nat_large: "10 \<le> n \<Longrightarrow> str_nat n = str_nat (n div 10) @ [digit_char (n mod 10)]"
  by (subst str_nat.simps) simp

lemma str_nat_length: "0 < length (str_nat n)"
  by (subst str_nat.simps) simp

lemma zero_pad_zero: "0 < w \<Longrightarrow> zero_pad w 0 = replicate w (CHR ''0'')"
proof -
  assume "0 < w"
  then obtain k where w: "w = Suc k" by (cases w) auto
  have "str_nat 0 = ''0''" by (simp add: str_nat_small digit_char_def)
  then show ?thesis
    unfolding zero_pad_def w by (simp add: replicate_append_same)
qed

lemma zero_pad_digits_nat:
  "s \<noteq> [] \<Longrightarrow> list_all is_digit s \<Longrightarrow> zero_pad (length s) (digits_nat s) = s"
proof (induction s rule: rev_induct)
  case Nil
  then show ?case by simp
next
  case (snoc c t)
  from snoc.prems have c: "is_digit c" and t: "list_all is_digit t" by simp_all
  from digit_val_digit [OF c] have v: "digit_val c < 10" "digit_char (digit_val c) = c" by simp_all
  let ?r = "digits_nat t"
  have n: "digits_nat (t @ [c]) = 10 * ?r + digit_val c" by (rule digits_nat_snoc)
  show ?case
  proof (cases "t = []")
    case True
    then have "digits_nat (t @ [c]) = digit_val c" by (simp add: digits_nat_def)
    with v True show ?thesis by (simp add: zero_pad_def str_nat_small)
  next
    case False
    from snoc.IH [OF False t] have ih: "zero_pad (length t) ?r = t" .
    show ?thesis
    proof (cases "?r = 0")
      case True
      with ih False have "t = replicate (length t) (CHR ''0'')" by (simp add: zero_pad_zero)
      moreover from True n v have "str_nat (digits_nat (t @ [c])) = [c]"
        by (simp add: str_nat_small)
      ultimately show ?thesis
        unfolding zero_pad_def by (metis add_diff_cancel_right' length_append)
    next
      case pos: False
      then have "10 \<le> 10 * ?r + digit_val c" by simp
      from str_nat_large [OF this] v
      have "str_nat (digits_nat (t @ [c])) = str_nat ?r @ [c]" unfolding n by simp
      then have "zero_pad (length (t @ [c])) (digits_nat (t @ [c])) = zero_pad (length t) ?r @ [c]"
        unfolding zero_pad_def by simp
      with ih show ?thesis by simp
    qed
  qed
qed

lemma name_folder_bucketFor:
  assumes "datere_search fname = Some dt"
  shows "name_folder dt =
     bucketFor (Some (digits_nat (take 4 dt), digits_nat (take 2 (drop 4 dt))))"
proof -
  from datere_search_Some [OF assms] have s: "length dt = 8" "list_all is_digit dt" by simp_all
  note sh = name_folder_shape [OF s]
  from sh(1) have "take 4 dt \<noteq> []" by (metis length_0_conv zero_neq_numeral)
  from zero_pad_digits_nat [OF this sh(3)] have y: "zero_pad 4 (digits_nat (take 4 dt)) = take 4 dt"
    unfolding sh(1) .
  from sh(2) have "take 2 (drop 4 dt) \<noteq> []" by (metis length_0_conv zero_neq_numeral)
  from zero_pad_digits_nat [OF this sh(4)]
  have m: "zero_pad 2 (digits_nat (take 2 (drop 4 dt))) = take 2 (drop 4 dt)"
    unfolding sh(2) .
  show ?thesis unfolding name_folder_def bucketFor_def by (simp only: y m option.case prod.case)
qed

lemma fields_bucketFor:
  assumes "length y = 4" "list_all is_digit y" "length m = 2" "list_all is_digit m"
  shows "y @ ''-'' @ m = bucketFor (Some (digits_nat y, digits_nat m))"
proof -
  from assms(1) have "y \<noteq> []" by (metis length_0_conv zero_neq_numeral)
  from zero_pad_digits_nat [OF this assms(2)] have y: "zero_pad 4 (digits_nat y) = y"
    unfolding assms(1) .
  from assms(3) have "m \<noteq> []" by (metis length_0_conv zero_neq_numeral)
  from zero_pad_digits_nat [OF this assms(4)] have m: "zero_pad 2 (digits_nat m) = m"
    unfolding assms(3) .
  show ?thesis unfolding bucketFor_def by (simp only: y m option.case prod.case)
qed

subsection \<open>The inference for images and the walk\<close>

lemma split_colon_length: "length (split_colon n s) \<le> Suc n"
  by (induction n arbitrary: s) simp_all

lemma exif_folder_eq:
  "exif_folder v =
     (if length (split_colon 2 v) = 3
      then Inr (split_colon 2 v ! 0 @ ''-'' @ split_colon 2 v ! 1) else Inl ValueError)"
proof -
  have "length (split_colon 2 v) \<le> 3" using split_colon_length [of 2 v] by simp
  then show ?thesis
    unfolding exif_folder_def by (auto split: list.splits)
qed

lemma image_exif_raises:
  "read_exif f = Inl e \<Longrightarrow> infer_image_dest_folder dir fname f = Inl e"
  unfolding infer_image_dest_folder_def by simp

lemma image_first_key:
  "read_exif f = Inr ex \<Longrightarrow> map_of ex ''Exif.Image.DateTime'' = Some v \<Longrightarrow>
   infer_image_dest_folder dir fname f = exif_folder v"
  unfolding infer_image_dest_folder_def by auto

lemma image_second_key:
  "read_exif f = Inr ex \<Longrightarrow> map_of ex ''Exif.Image.DateTime'' = None \<Longrightarrow>
   map_of ex ''Exif.Photo.DateTimeOriginal'' = Some v \<Longrightarrow>
   infer_image_dest_folder dir fname f = exif_folder v"
  unfolding infer_image_dest_folder_def by auto

lemma image_no_key:
  "read_exif f = Inr ex \<Longrightarrow> map_of ex ''Exif.Image.DateTime'' = None \<Longrightarrow>
   map_of ex ''Exif.Photo.DateTimeOriginal'' = None \<Longrightarrow>
   infer_image_dest_folder dir fname f =
     Inr (case datere_search fname of Some dt \<Rightarrow> name_folder dt | None \<Rightarrow> ''unknown'')"
  unfolding infer_image_dest_folder_def by (simp split: option.splits)

lemma exif_timestamp_None:
  "exif_timestamp ex = None \<longleftrightarrow>
   map_of ex ''Exif.Image.DateTime'' = None \<and> map_of ex ''Exif.Photo.DateTimeOriginal'' = None"
  unfolding exif_timestamp_def by (simp split: option.splits)

lemma image_timestamp:
  assumes "read_exif f = Inr ex" and "exif_timestamp ex = Some v"
  shows "infer_image_dest_folder dir fname f = exif_folder v"
proof (cases "map_of ex ''Exif.Image.DateTime''")
  case None
  with assms(2) have "map_of ex ''Exif.Photo.DateTimeOriginal'' = Some v"
    by (simp add: exif_timestamp_def)
  from image_second_key [OF assms(1) None this] show ?thesis .
next
  case (Some w)
  with assms(2) have "w = v" by (simp add: exif_timestamp_def)
  with image_first_key [OF assms(1) Some] show ?thesis by simp
qed

lemma image_no_timestamp:
  assumes "read_exif f = Inr ex" and "exif_timestamp ex = None"
  shows "infer_image_dest_folder dir fname f =
     Inr (case datere_search fname of Some dt \<Rightarrow> name_folder dt | None \<Rightarrow> ''unknown'')"
  using assms(2) image_no_key [OF assms(1)] by (simp add: exif_timestamp_None)

lemma walk_files_raises:
  assumes "infer_image_dest_folder root fname f = Inl e"
  shows "walk_files ''image'' root ((fname, f) # rest) = walk_files ''image'' root rest"
  using assms by (simp add: infer_dest_folder_def)

lemma walk_files_candidates:
  "map (\<lambda>(r, n, f, dd). (r, n, f)) (walk_files t root fl) =
   filter (inferable t)
     (map (\<lambda>(fname, f). (root, fname, f))
        (filter (\<lambda>(fname, f). endswith (lower fname) (ext_list t)) fl))"
proof (induction fl)
  case Nil
  show ?case by simp
next
  case (Cons x fl)
  obtain fname f where x: "x = (fname, f)" by (cases x)
  show ?case
    unfolding x using Cons.IH
    by (cases "infer_dest_folder t root fname f") (simp_all add: inferable_def)
qed

lemma walk_src_dir_candidates:
  "map (\<lambda>(r, n, f, dd). (r, n, f)) (walk_src_dir walk t) = filter (inferable t) (candidates walk t)"
proof (induction walk)
  case Nil
  show ?case by simp
next
  case (Cons x walk)
  obtain root fl where x: "x = (root, fl)" by (cases x)
  show ?case unfolding x using Cons.IH by (simp add: walk_files_candidates)
qed

lemma walk_src_dir_keys:
  "map key_of (walk_src_dir walk t) = map candidate_key (filter (inferable t) (candidates walk t))"
proof -
  have "map key_of ys = map candidate_key (map (\<lambda>(r, n, f, dd). (r, n, f)) ys)" for ys :: "yielded list"
    by (induction ys) (auto simp: key_of_def candidate_key_def)
  then show ?thesis by (simp only: walk_src_dir_candidates)
qed

section \<open>The claims\<close>

subsection \<open>A copy or a digest that fails\<close>




subsection \<open>EXIF data that cannot be read\<close>

text \<open>
  C2, as the program has it. When reading the EXIF data raises, or the timestamp that is
  read has not three fields between its first two colons, the inference for an image
  raises, whatever the file name is: the file name is not tried. The walk catches the
  exception, yields nothing for the file and goes on with the next one.
\<close>

theorem exif_failure_skips_file:
  assumes "read_exif f = Inl e \<or>
    (\<exists>ex v. read_exif f = Inr ex \<and> exif_timestamp ex = Some v \<and> length (split_colon 2 v) \<noteq> 3)"
  shows "\<exists>e'. infer_image_dest_folder root fname f = Inl e' \<and>
     walk_files ''image'' root ((fname, f) # rest) = walk_files ''image'' root rest"
proof -
  have "\<exists>e'. infer_image_dest_folder root fname f = Inl e'"
    using assms
  proof
    assume "read_exif f = Inl e"
    then show ?thesis by (simp add: image_exif_raises)
  next
    assume "\<exists>ex v. read_exif f = Inr ex \<and> exif_timestamp ex = Some v \<and>
      length (split_colon 2 v) \<noteq> 3"
    then obtain ex v where r: "read_exif f = Inr ex" and t: "exif_timestamp ex = Some v"
      and l: "length (split_colon 2 v) \<noteq> 3" by blast
    have "infer_image_dest_folder root fname f = exif_folder v"
    proof (cases "map_of ex ''Exif.Image.DateTime''")
      case None
      with t have "map_of ex ''Exif.Photo.DateTimeOriginal'' = Some v"
        by (simp add: exif_timestamp_def)
      from image_second_key [OF r None this] show ?thesis .
    next
      case (Some w)
      with t have "w = v" by (simp add: exif_timestamp_def)
      with image_first_key [OF r Some] show ?thesis by simp
    qed
    with l show ?thesis by (simp add: exif_folder_eq)
  qed
  then obtain e' where i: "infer_image_dest_folder root fname f = Inl e'" ..
  from walk_files_raises [OF i] i show ?thesis by blast
qed

text \<open>An instance: a timestamp written with hyphens, in a file whose name has a date.\<close>

theorem exif_failure_skips_file_witness:
  "read_exif (with_exif ''x'' ''2023-07-15'') = Inr [(''Exif.Image.DateTime'', ''2023-07-15'')] \<and>
   exif_timestamp [(''Exif.Image.DateTime'', ''2023-07-15'')] = Some ''2023-07-15'' \<and>
   length (split_colon 2 ''2023-07-15'') \<noteq> 3 \<and>
   (\<exists>e'. infer_image_dest_folder ''a'' ''20230715_142233.jpg'' (with_exif ''x'' ''2023-07-15'')
            = Inl e' \<and>
      walk_files ''image'' ''a''
        ((''20230715_142233.jpg'', with_exif ''x'' ''2023-07-15'') # [(''IMG_2.jpg'', plain ''y'')])
      = walk_files ''image'' ''a'' [(''IMG_2.jpg'', plain ''y'')])"
proof -
  have h: "read_exif (with_exif ''x'' ''2023-07-15'') = Inr [(''Exif.Image.DateTime'', ''2023-07-15'')]"
    "exif_timestamp [(''Exif.Image.DateTime'', ''2023-07-15'')] = Some ''2023-07-15''"
    "length (split_colon 2 ''2023-07-15'') \<noteq> 3"
    by code_simp+
  then have "read_exif (with_exif ''x'' ''2023-07-15'') = Inl IOError \<or>
    (\<exists>ex v. read_exif (with_exif ''x'' ''2023-07-15'') = Inr ex \<and> exif_timestamp ex = Some v \<and>
       length (split_colon 2 v) \<noteq> 3)"
    by blast
  from exif_failure_skips_file [OF this, of "''a''" "''20230715_142233.jpg''"
      "[(''IMG_2.jpg'', plain ''y'')]"]
  show ?thesis using h by blast
qed

text \<open>
  The statement that such a file falls through to the date in its name does not hold:
  the name has the date 20230715, the inference raises, and the walk yields the other
  file alone.
\<close>

theorem exif_failure_counterexample:
  "datere_search ''20230715_142233.jpg'' = Some ''20230715'' \<and>
   infer_image_dest_folder ''a'' ''20230715_142233.jpg'' (with_exif ''x'' ''2023-07-15'')
     = Inl ValueError \<and>
   walk_src_dir photos ''image'' = [(''a'', ''IMG_2.jpg'', plain ''y'', ''unknown'')]"
  by code_simp

subsection \<open>Decisions and candidates\<close>

text \<open>
  C3, as the program has it. The decisions of a run are, in order, those of the first
  candidates for which the inference returned: one decision each, none twice. When the
  run ends without an exception there is one for each of these candidates, and when
  moreover the inference returned for every candidate, one for every candidate.
\<close>

theorem decisions_follow_walk:
  assumes "main md5 rnd a walk fs = (st, e)"
  shows "map fst (decisions st) =
       take (length (decisions st))
         (map candidate_key (filter (inferable (type a)) (candidates walk (type a)))) \<and>
     (e = None \<longrightarrow>
        map fst (decisions st) =
          map candidate_key (filter (inferable (type a)) (candidates walk (type a)))) \<and>
     (e = None \<and> list_all (inferable (type a)) (candidates walk (type a)) \<longrightarrow>
        map fst (decisions st) = map candidate_key (candidates walk (type a)))"
proof -
  let ?ys = "walk_src_dir walk (type a)"
  let ?cs = "map candidate_key (filter (inferable (type a)) (candidates walk (type a)))"
  from assms have "main_loop md5 rnd (dst a)
      \<lparr>files = fs, createdSubdirs = [], nfiles = 0, cfiles = 0, rpos = 0, decisions = []\<rparr> ?ys
      = (st, e)"
    by (simp add: main_def)
  from main_loop_decisions [OF this]
  have p: "map fst (decisions st) = take (length (decisions st)) (map key_of ?ys)"
    and c: "e = None \<longrightarrow> length (decisions st) = length ?ys"
    by auto
  have k: "map key_of ?ys = ?cs" by (rule walk_src_dir_keys)
  have 1: "map fst (decisions st) = take (length (decisions st)) ?cs" using p k by simp
  have 2: "map fst (decisions st) = ?cs" if "e = None"
  proof -
    from that c have "length (decisions st) = length ?cs" using k by (metis length_map)
    with 1 show ?thesis by simp
  qed
  have 3: "map fst (decisions st) = map candidate_key (candidates walk (type a))"
    if "e = None" "list_all (inferable (type a)) (candidates walk (type a))"
  proof -
    from that(2) have "filter (inferable (type a)) (candidates walk (type a)) = candidates walk (type a)"
      by (simp add: list_all_iff)
    with 2 [OF that(1)] show ?thesis by simp
  qed
  from 1 2 3 show ?thesis by blast
qed

text \<open>An instance: the two images of the end-to-end scenario.\<close>

theorem decisions_follow_walk_witness:
  "snd (main (\<lambda>c. c) (\<lambda>i. 0) image_args album Map.empty) = None \<and>
   list_all (inferable ''image'') (candidates album ''image'') \<and>
   map fst (decisions (fst (main (\<lambda>c. c) (\<lambda>i. 0) image_args album Map.empty))) =
     map candidate_key (candidates album ''image'') \<and>
   map candidate_key (candidates album ''image'') =
     [(''a'', ''20230101_100000.jpg''), (''b'', ''IMG_0099.png'')]"
proof -
  let ?r = "main (\<lambda>c. c) (\<lambda>i. 0) image_args album Map.empty"
  have n: "snd ?r = None" and l: "list_all (inferable ''image'') (candidates album ''image'')"
    and c: "map candidate_key (candidates album ''image'') =
     [(''a'', ''20230101_100000.jpg''), (''b'', ''IMG_0099.png'')]"
    and t: "type image_args = ''image''"
    by code_simp+
  have h: "?r = (fst ?r, snd ?r)" by simp
  note th = decisions_follow_walk [OF h, unfolded t]
  from th n l
  have e: "map fst (decisions (fst ?r)) = map candidate_key (candidates album ''image'')"
    by blast
  show ?thesis by (intro conjI) (rule n l e c)+
qed

text \<open>
  The statement that every candidate has a decision does not hold: of two candidates the
  one with the unusable timestamp has none, and is not counted.
\<close>

theorem one_decision_counterexample:
  "map candidate_key (candidates photos ''image'') =
     [(''a'', ''20230715_142233.jpg''), (''a'', ''IMG_2.jpg'')] \<and>
   snd (main (\<lambda>c. c) (\<lambda>i. 0) image_args photos Map.empty) = None \<and>
   decisions (fst (main (\<lambda>c. c) (\<lambda>i. 0) image_args photos Map.empty)) =
     [((''a'', ''IMG_2.jpg''), Copied [''d'', ''unknown'', ''IMG_2.jpg''])] \<and>
   nfiles (fst (main (\<lambda>c. c) (\<lambda>i. 0) image_args photos Map.empty)) = 1"
  by code_simp

subsection \<open>Files that are there before the run\<close>

text \<open>
  C4, as the program has it. A file that is in the destination before the run is there
  with the same content after it, unless a copy under a suffixed name was written to its
  very path: the random name is not checked against the files that exist.
\<close>

theorem existing_files_kept:
  assumes "main md5 rnd a walk fs = (st, e)" and "fs p = Some g"
    and "\<forall>c s. (c, CopiedWithSuffix p s) \<notin> set (decisions st)"
  shows "files st p = Some g"
proof -
  from assms(1) have "main_loop md5 rnd (dst a)
      \<lparr>files = fs, createdSubdirs = [], nfiles = 0, cfiles = 0, rpos = 0, decisions = []\<rparr>
      (walk_src_dir walk (type a)) = (st, e)"
    by (simp add: main_def)
  from main_loop_keeps [OF this _ assms(3)] assms(2) show ?thesis by simp
qed

text \<open>An instance: the file at the destination path stays, the new one gets a prefix.\<close>

theorem existing_files_kept_witness:
  "taken [''d'', ''unknown'', ''x.jpg''] = Some (plain ''old'') \<and>
   decisions (fst (main (\<lambda>c. c) (\<lambda>i. 0) image_args single taken)) =
     [((''a'', ''x.jpg''), CopiedWithSuffix [''d'', ''unknown'', ''aaaaa-x.jpg''] ''aaaaa'')] \<and>
   files (fst (main (\<lambda>c. c) (\<lambda>i. 0) image_args single taken)) [''d'', ''unknown'', ''x.jpg'']
     = Some (plain ''old'')"
proof -
  let ?r = "main (\<lambda>c. c) (\<lambda>i. 0) image_args single taken"
  have g: "taken [''d'', ''unknown'', ''x.jpg''] = Some (plain ''old'')" by code_simp
  have d: "decisions (fst ?r) =
     [((''a'', ''x.jpg''), CopiedWithSuffix [''d'', ''unknown'', ''aaaaa-x.jpg''] ''aaaaa'')]"
    by code_simp
  have n: "\<forall>c s. (c, CopiedWithSuffix [''d'', ''unknown'', ''x.jpg''] s) \<notin> set (decisions (fst ?r))"
    unfolding d by simp
  have h: "?r = (fst ?r, snd ?r)" by simp
  from existing_files_kept [OF h g n] g d show ?thesis by simp
qed

text \<open>
  The statement that no file is ever overwritten does not hold: when the random prefix
  gives the name of a file that exists, that file is replaced.
\<close>

theorem overwrite_counterexample:
  "crowded [''d'', ''unknown'', ''aaaaa-x.jpg''] = Some (plain ''keep'') \<and>
   decisions (fst (main (\<lambda>c. c) (\<lambda>i. 0) image_args single crowded)) =
     [((''a'', ''x.jpg''), CopiedWithSuffix [''d'', ''unknown'', ''aaaaa-x.jpg''] ''aaaaa'')] \<and>
   files (fst (main (\<lambda>c. c) (\<lambda>i. 0) image_args single crowded))
     [''d'', ''unknown'', ''aaaaa-x.jpg''] = Some (plain ''new'') \<and>
   plain ''new'' \<noteq> plain ''keep''"
  by code_simp

subsection \<open>A destination path that exists\<close>



subsection \<open>The summary\<close>

text \<open>
  C6. Two files of the same name and different content, in two directories, and an empty
  destination: both are written, the second under a suffixed name, and the summary
  reports two files found and one copied. The copy under the suffixed name is not
  counted.
\<close>

theorem suffixed_copy_not_counted:
  "snd (main (\<lambda>c. c) (\<lambda>i. 0) image_args twins Map.empty) = None \<and>
   decisions (fst (main (\<lambda>c. c) (\<lambda>i. 0) image_args twins Map.empty)) =
     [((''a'', ''x.jpg''), Copied [''d'', ''unknown'', ''x.jpg'']),
      ((''b'', ''x.jpg''), CopiedWithSuffix [''d'', ''unknown'', ''aaaaa-x.jpg''] ''aaaaa'')] \<and>
   files (fst (main (\<lambda>c. c) (\<lambda>i. 0) image_args twins Map.empty)) [''d'', ''unknown'', ''x.jpg'']
     = Some (plain ''x'') \<and>
   files (fst (main (\<lambda>c. c) (\<lambda>i. 0) image_args twins Map.empty))
     [''d'', ''unknown'', ''aaaaa-x.jpg''] = Some (plain ''y'') \<and>
   summary (fst (main (\<lambda>c. c) (\<lambda>i. 0) image_args twins Map.empty)) =
     [''=== Files found:  2'', ''=== Files copied: 1'']"
  by code_simp

subsection \<open>Running twice\<close>




subsection \<open>Videos\<close>



subsection \<open>Bucket names\<close>

text \<open>
  C9, as the program has it. A date found in the file name, or taken from the last
  modification of a video, gives the bucket name of the specification: the year on four
  digits, a hyphen, the month on two digits. An image without a timestamp and without a
  date in its name gives \<open>unknown\<close>. A timestamp read from the EXIF data gives its first
  two fields as they are written, with a hyphen between them; this is the bucket name of
  the specification when the fields are four digits and two digits.
\<close>

theorem bucket_names:
  "(datere_search pn = Some dt \<longrightarrow>
      infer_video_dest_folder dir pn f =
        Inr (bucketFor (Some (digits_nat (take 4 dt), digits_nat (take 2 (drop 4 dt)))))) \<and>
   (datere_search qn = None \<longrightarrow>
      infer_video_dest_folder dir qn f = Inr (bucketFor (Some (mtime f)))) \<and>
   (read_exif g = Inr ex \<and> exif_timestamp ex = None \<and> datere_search pn = Some dt \<longrightarrow>
      infer_image_dest_folder dir pn g =
        Inr (bucketFor (Some (digits_nat (take 4 dt), digits_nat (take 2 (drop 4 dt)))))) \<and>
   (read_exif g = Inr ex \<and> exif_timestamp ex = None \<and> datere_search qn = None \<longrightarrow>
      infer_image_dest_folder dir qn g = Inr (bucketFor None)) \<and>
   (read_exif h = Inr ex' \<and> exif_timestamp ex' = Some v \<and> split_colon 2 v = [y, m, r] \<longrightarrow>
      infer_image_dest_folder dir pn h = Inr (y @ ''-'' @ m) \<and>
      (length y = 4 \<and> list_all is_digit y \<and> length m = 2 \<and> list_all is_digit m \<longrightarrow>
         y @ ''-'' @ m = bucketFor (Some (digits_nat y, digits_nat m))))"
proof (intro conjI impI)
  assume "datere_search pn = Some dt"
  with name_folder_bucketFor [of pn dt] show "infer_video_dest_folder dir pn f =
        Inr (bucketFor (Some (digits_nat (take 4 dt), digits_nat (take 2 (drop 4 dt)))))"
    by (simp add: infer_video_dest_folder_def)
next
  assume "datere_search qn = None"
  then show "infer_video_dest_folder dir qn f = Inr (bucketFor (Some (mtime f)))"
    by (simp add: infer_video_dest_folder_def bucketFor_def split: prod.splits)
next
  assume a: "read_exif g = Inr ex \<and> exif_timestamp ex = None \<and> datere_search pn = Some dt"
  then have "infer_image_dest_folder dir pn g = Inr (name_folder dt)"
    by (simp add: image_no_timestamp)
  with a name_folder_bucketFor [of pn dt] show "infer_image_dest_folder dir pn g =
        Inr (bucketFor (Some (digits_nat (take 4 dt), digits_nat (take 2 (drop 4 dt)))))"
    by simp
next
  assume "read_exif g = Inr ex \<and> exif_timestamp ex = None \<and> datere_search qn = None"
  then show "infer_image_dest_folder dir qn g = Inr (bucketFor None)"
    by (simp add: image_no_timestamp bucketFor_def)
next
  assume a: "read_exif h = Inr ex' \<and> exif_timestamp ex' = Some v \<and> split_colon 2 v = [y, m, r]"
  then have "infer_image_dest_folder dir pn h = exif_folder v" by (simp add: image_timestamp)
  with a show "infer_image_dest_folder dir pn h = Inr (y @ ''-'' @ m)"
    by (simp add: exif_folder_def)
next
  assume "length y = 4 \<and> list_all is_digit y \<and> length m = 2 \<and> list_all is_digit m"
  then show "y @ ''-'' @ m = bucketFor (Some (digits_nat y, digits_nat m))"
    by (elim conjE) (rule fields_bucketFor)
qed

text \<open>An instance of each case.\<close>

theorem bucket_names_witness:
  "datere_search ''20230715_142233.jpg'' = Some ''20230715'' \<and>
   datere_search ''IMG_2.jpg'' = None \<and>
   read_exif (plain ''y'') = Inr [] \<and> exif_timestamp [] = None \<and>
   read_exif (with_exif ''z'' ''2022:12:24 10:11:12'')
     = Inr [(''Exif.Image.DateTime'', ''2022:12:24 10:11:12'')] \<and>
   exif_timestamp [(''Exif.Image.DateTime'', ''2022:12:24 10:11:12'')]
     = Some ''2022:12:24 10:11:12'' \<and>
   split_colon 2 ''2022:12:24 10:11:12'' = [''2022'', ''12'', ''24 10:11:12''] \<and>
   length ''2022'' = 4 \<and> list_all is_digit ''2022'' \<and> length ''12'' = 2 \<and>
   list_all is_digit ''12'' \<and>
   infer_video_dest_folder ''a'' ''20230715_142233.jpg'' (plain ''x'') =
     Inr (bucketFor (Some (digits_nat (take 4 ''20230715''),
                           digits_nat (take 2 (drop 4 ''20230715''))))) \<and>
   infer_video_dest_folder ''a'' ''IMG_2.jpg'' (plain ''x'') = Inr (bucketFor (Some (mtime (plain ''x'')))) \<and>
   infer_image_dest_folder ''a'' ''20230715_142233.jpg'' (plain ''y'') =
     Inr (bucketFor (Some (digits_nat (take 4 ''20230715''),
                           digits_nat (take 2 (drop 4 ''20230715''))))) \<and>
   infer_image_dest_folder ''a'' ''IMG_2.jpg'' (plain ''y'') = Inr (bucketFor None) \<and>
   infer_image_dest_folder ''a'' ''20230715_142233.jpg'' (with_exif ''z'' ''2022:12:24 10:11:12'')
     = Inr (''2022'' @ ''-'' @ ''12'') \<and>
   ''2022'' @ ''-'' @ ''12'' = bucketFor (Some (digits_nat ''2022'', digits_nat ''12''))"
proof -
  have h1: "datere_search ''20230715_142233.jpg'' = Some ''20230715''" by code_simp
  have h2: "datere_search ''IMG_2.jpg'' = None" by code_simp
  have h3: "read_exif (plain ''y'') = Inr []" by code_simp
  have h4: "exif_timestamp [] = None" by code_simp
  have h5: "read_exif (with_exif ''z'' ''2022:12:24 10:11:12'')
     = Inr [(''Exif.Image.DateTime'', ''2022:12:24 10:11:12'')]" by code_simp
  have h6: "exif_timestamp [(''Exif.Image.DateTime'', ''2022:12:24 10:11:12'')]
     = Some ''2022:12:24 10:11:12''" by code_simp
  have h7: "split_colon 2 ''2022:12:24 10:11:12'' = [''2022'', ''12'', ''24 10:11:12'']"
    by code_simp
  have h8: "length ''2022'' = 4" "list_all is_digit ''2022''" "length ''12'' = 2"
    "list_all is_digit ''12''" by code_simp+
  note th = bucket_names [of "''20230715_142233.jpg''" "''20230715''" "''a''" "plain ''x''"
      "''IMG_2.jpg''" "plain ''y''" "[]" "with_exif ''z'' ''2022:12:24 10:11:12''"
      "[(''Exif.Image.DateTime'', ''2022:12:24 10:11:12'')]" "''2022:12:24 10:11:12''"
      "''2022''" "''12''" "''24 10:11:12''"]
  note c1 = th [THEN conjunct1, THEN mp, OF h1]
  note c2 = th [THEN conjunct2, THEN conjunct1, THEN mp, OF h2]
  note c3 = th [THEN conjunct2, THEN conjunct2, THEN conjunct1, THEN mp, OF conjI [OF h3 conjI [OF h4 h1]]]
  note c4 = th [THEN conjunct2, THEN conjunct2, THEN conjunct2, THEN conjunct1, THEN mp,
      OF conjI [OF h3 conjI [OF h4 h2]]]
  note c5 = th [THEN conjunct2, THEN conjunct2, THEN conjunct2, THEN conjunct2, THEN mp,
      OF conjI [OF h5 conjI [OF h6 h7]]]
  note c6 = c5 [THEN conjunct2, THEN mp, OF conjI [OF h8(1) conjI [OF h8(2) conjI [OF h8(3) h8(4)]]]]
  show ?thesis
    by (intro conjI) (rule h1 h2 h3 h4 h5 h6 h7 h8 c1 c2 c3 c4 c5 [THEN conjunct1] c6)+
qed

text \<open>
  The statement that every bucket name is zero-padded or \<open>unknown\<close> does not hold: a
  month written with one digit is kept as it is, and a timestamp of blanks gives a folder
  of blanks.
\<close>

theorem bucket_counterexample:
  "infer_image_dest_folder ''a'' ''IMG_1.jpg'' (with_exif ''x'' ''2023:7:15 10:00:00'')
     = Inr ''2023-7'' \<and>
   bucketFor (Some (digits_nat ''2023'', digits_nat ''7'')) = ''2023-07'' \<and>
   infer_image_dest_folder ''a'' ''IMG_1.jpg'' (with_exif ''x'' ''    :  :     :  :  '')
     = Inr ''    -  ''"
  by code_simp

subsection \<open>The type flag\<close>

text \<open>
  C10. A value of the type flag other than the string \<open>image\<close> selects the video
  extensions and the video inference, whatever it is: the walk and the whole run are those
  of the value \<open>video\<close>. No value is rejected.
\<close>

theorem type_not_image_is_video:
  assumes "file_type \<noteq> ''image''"
  shows "ext_list file_type = VIDEO_EXT \<and>
         infer_dest_folder file_type = infer_video_dest_folder \<and>
         walk_src_dir walk file_type = walk_src_dir walk ''video'' \<and>
         main md5 rnd \<lparr>src = s, dst = d, type = file_type\<rparr> walk fs =
         main md5 rnd \<lparr>src = s, dst = d, type = ''video''\<rparr> walk fs"
proof -
  have "main md5 rnd \<lparr>src = s, dst = d, type = file_type\<rparr> walk fs =
         main md5 rnd \<lparr>src = s, dst = d, type = ''video''\<rparr> walk fs"
    unfolding main_def by (simp add: walk_src_dir_not_image [OF assms])
  then show ?thesis
    using ext_list_not_image [OF assms] infer_not_image [OF assms] walk_src_dir_not_image [OF assms]
    by blast
qed

text \<open>An instance: the flag in upper case.\<close>

theorem type_not_image_is_video_witness:
  "''IMAGE'' \<noteq> ''image'' \<and> ext_list ''IMAGE'' = VIDEO_EXT \<and>
   walk_src_dir [(''a'', [(''CLIP.MP4'', plain ''x''), (''pic.jpg'', plain ''y'')])] ''IMAGE'' =
     [(''a'', ''CLIP.MP4'', plain ''x'', ''2021-03'')] \<and>
   main (\<lambda>c. c) (\<lambda>i. 0) \<lparr>src = ''s'', dst = ''d'', type = ''IMAGE''\<rparr>
     [(''a'', [(''CLIP.MP4'', plain ''x''), (''pic.jpg'', plain ''y'')])] Map.empty =
   main (\<lambda>c. c) (\<lambda>i. 0) \<lparr>src = ''s'', dst = ''d'', type = ''video''\<rparr>
     [(''a'', [(''CLIP.MP4'', plain ''x''), (''pic.jpg'', plain ''y'')])] Map.empty"
proof -
  have h: "''IMAGE'' \<noteq> ''image''" by simp
  have w: "walk_src_dir [(''a'', [(''CLIP.MP4'', plain ''x''), (''pic.jpg'', plain ''y'')])] ''video'' =
     [(''a'', ''CLIP.MP4'', plain ''x'', ''2021-03'')]"
    by code_simp
  from type_not_image_is_video [OF h, of
      "[(''a'', [(''CLIP.MP4'', plain ''x''), (''pic.jpg'', plain ''y'')])]"
      "\<lambda>c. c" "\<lambda>i. 0" "''s''" "''d''" Map.empty]
  show ?thesis using h w by (simp only: simp_thms)
qed

end
